theory Spec2Isabelle
  imports Main
begin

section \<open>String operations of the host language\<close>

text \<open>
  The rule is written in TypeScript.  Its strings are sequences of code units and are
  modelled as \<^typ>\<open>string\<close>, one \<^typ>\<open>char\<close> per code unit; indices are
  \<^typ>\<open>int\<close> because \<open>indexOf\<close> answers \<open>-1\<close> when nothing is found.
  The operations below are the library methods the source calls, with their clamping
  written out.
\<close>

definition str_startsWith :: "string \<Rightarrow> string \<Rightarrow> bool" where
  "str_startsWith s pat = (take (length pat) s = pat)"

text \<open>Offset of the first occurrence of \<open>pat\<close> in \<open>s\<close>, scanning left to right.\<close>

fun search :: "string \<Rightarrow> string \<Rightarrow> nat option" where
  "search pat [] = (if pat = [] then Some 0 else None)"
| "search pat (c # cs) =
     (if str_startsWith (c # cs) pat then Some 0 else map_option Suc (search pat cs))"

text \<open>\<open>s.indexOf(pat, pos)\<close>: the start position is clamped into \<open>0 .. length s\<close>.\<close>

definition str_indexOf :: "string \<Rightarrow> string \<Rightarrow> int \<Rightarrow> int" where
  "str_indexOf s pat pos =
     (let start = nat (min (max pos 0) (int (length s)))
      in case search pat (drop start s) of
           None \<Rightarrow> - 1
         | Some k \<Rightarrow> int (start + k))"

definition str_includes :: "string \<Rightarrow> string \<Rightarrow> bool" where
  "str_includes s pat = (str_indexOf s pat 0 \<noteq> - 1)"

text \<open>
  \<open>s.slice(start, end)\<close>: a negative bound counts from the end, both bounds are clamped
  into \<open>0 .. length s\<close>, and the result is empty when the upper bound does not exceed
  the lower one.
\<close>

definition str_slice :: "string \<Rightarrow> int \<Rightarrow> int \<Rightarrow> string" where
  "str_slice s start end =
     (let len = int (length s);
          from = (if start < 0 then max (len + start) 0 else min start len);
          to = (if end < 0 then max (len + end) 0 else min end len)
      in take (nat (to - from)) (drop (nat from) s))"

text \<open>
  The replacement text of \<open>replace\<close> is a template: \<open>$$\<close> stands for a dollar sign,
  \<open>$&\<close> for the matched text, \<open>$`\<close> and \<open>$'\<close> for the text before and after the
  match.  A string pattern has no capture groups, so every other \<open>$\<close> stands for itself.
\<close>

fun GetSubstitution :: "string \<Rightarrow> string \<Rightarrow> nat \<Rightarrow> string \<Rightarrow> string" where
  "GetSubstitution matched str position [] = []"
| "GetSubstitution matched str position [c] = [c]"
| "GetSubstitution matched str position (c # d # rest) =
     (if c = CHR ''$'' \<and> d = CHR ''$''
        then CHR ''$'' # GetSubstitution matched str position rest
      else if c = CHR ''$'' \<and> d = CHR 0x60
        then take position str @ GetSubstitution matched str position rest
      else if c = CHR ''$'' \<and> d = CHR ''&''
        then matched @ GetSubstitution matched str position rest
      else if c = CHR ''$'' \<and> d = CHR 0x27
        then drop (min (position + length matched) (length str)) str
               @ GetSubstitution matched str position rest
      else c # GetSubstitution matched str position (d # rest))"

text \<open>\<open>s.replace(pat, repl)\<close> with a string pattern: only the first occurrence is replaced.\<close>

definition str_replace :: "string \<Rightarrow> string \<Rightarrow> string \<Rightarrow> string" where
  "str_replace s pat repl =
     (case search pat s of
        None \<Rightarrow> s
      | Some p \<Rightarrow> take p s @ GetSubstitution pat s p repl @ drop (p + length pat) s)"


section \<open>The token registry\<close>

text \<open>
  \<open>tokenColors\<close> is a plain object used as a dictionary.  Its own properties are kept as
  an association list in the order \<open>Object.keys\<close> enumerates them: a property that is
  assigned again keeps its place, a new one goes to the end.  (Integer-like names would be
  enumerated first; every name stored here begins with two dashes, see lemma
  \<open>reachable_keys\<close>.)
\<close>

type_synonym registry = "(string \<times> string) list"

primrec obj_set :: "string \<Rightarrow> string \<Rightarrow> registry \<Rightarrow> registry" where
  "obj_set k v [] = [(k, v)]"
| "obj_set k v (e # es) = (if fst e = k then (k, v) # es else e # obj_set k v es)"

definition obj_get :: "registry \<Rightarrow> string \<Rightarrow> string option" where
  "obj_get r k = map_of r k"

definition Object_keys :: "registry \<Rightarrow> string list" where
  "Object_keys r = map fst r"


section \<open>The style-sheet visitor \<open>colorMod\<close>\<close>

record css_decl =
  decl_prop :: string
  decl_value :: string

text \<open>
  The module state: the registry \<open>tokenColors\<close>, the lines written by \<open>console.log\<close>
  (the tag \<open>mod\<close> is constant and left out), and the diagnostics handed to
  \<open>context.report\<close>.
\<close>

datatype js_value = JSString string | JSOther

record node =
  key_name :: "string option"
  lit_value :: js_value

record world =
  tokenColors :: registry
  console :: "(string \<times> int \<times> string) list"
  reports :: "(node \<times> string) list"

definition isColor :: "string \<Rightarrow> bool" where
  "isColor val =
     (str_includes val ''#'' \<or> str_includes val ''rgb('' \<or> str_includes val ''rgba('')"

text \<open>
  The span computed inside the rewrite branch: anchor index \<open>node\<close>, anchor token
  \<open>context\<close>, end index \<open>end\<close> and the slice \<open>hexOrRgba\<close>.
\<close>

definition extractColorSpan :: "string \<Rightarrow> int \<times> string \<times> int \<times> string" where
  "extractColorSpan val =
     (let node = (if str_includes val ''#'' then str_indexOf val ''#'' 0
                  else str_indexOf val ''rgb'' 0);
          context = (if str_includes val ''#'' then ''#'' else ''rgb'');
          end = str_indexOf val '')'' node + 1;
          hexOrRgba = str_slice val node end
      in (node, context, end, hexOrRgba))"

definition Declaration :: "css_decl \<Rightarrow> world \<Rightarrow> css_decl \<times> world" where
  "Declaration decl w =
     (let val = decl_value decl;
          w1 = (if str_startsWith (decl_prop decl) ''--'' \<and> isColor val
                then w\<lparr>tokenColors := obj_set (decl_prop decl) (decl_value decl) (tokenColors w)\<rparr>
                else w)
      in if str_includes val ''#'' \<or> str_includes val ''rgb('' \<or> str_includes val ''rgba(''
         then (case extractColorSpan val of (node, context, end, hexOrRgba) \<Rightarrow>
                 let w2 = w1\<lparr>console := console w1 @ [(context, end, val)]\<rparr>;
                     md = ''color('' @ hexOrRgba @ '')''
                 in (decl\<lparr>decl_value := str_replace val (context @ hexOrRgba) md\<rparr>, w2))
         else (decl, w1))"

text \<open>
  The visitor is run by the style-sheet processor (version 8 of the library, whose plugins
  have this shape).  The processor walks the parsed sheet in passes.  A pass calls the
  visitor on every declaration that is marked as changed, in source order; at the start all
  declarations are so marked.  A declaration is marked again when the visitor assigns it a
  text different from the one it has, and passes are repeated until none is marked.
  \<open>pass\<close> takes the marked declarations, threads the module state through the calls and
  returns the declarations that are marked afterwards, with their new text.
\<close>

fun pass :: "css_decl list \<Rightarrow> world \<Rightarrow> css_decl list \<times> world" where
  "pass [] w = ([], w)"
| "pass (d # ds) w =
     (case Declaration d w of (d', w') \<Rightarrow>
        (case pass ds w' of (dirty, w'') \<Rightarrow>
           (if decl_value d' = decl_value d then dirty else d' # dirty, w'')))"

text \<open>
  Nothing bounds the number of passes in advance, since a rewritten text can carry a marker
  again; the loop is therefore a partial function, \<open>None\<close> standing for a run that does not
  return.
\<close>

partial_function (option) walk :: "css_decl list \<Rightarrow> world \<Rightarrow> world option" where
  "walk dirty w =
     (if dirty = [] then Some w
      else case pass dirty w of (dirty', w') \<Rightarrow> walk dirty' w')"

declare walk.simps [code]


section \<open>The lint rule\<close>

datatype error = ConfigurationError

text \<open>
  \<open>create\<close> reads and parses the configured style sheet, which raises when no file is
  configured or the file cannot be read or parsed (\<open>None\<close> as argument, the module state
  is then untouched), and has the processor run the visitor over the declarations of the
  sheet.  The rewritten style sheet is dropped.  The result \<open>None\<close> stands for a call
  that does not return.
\<close>

fun create :: "css_decl list option \<Rightarrow> world \<Rightarrow> (error + world) option" where
  "create None w = Some (Inl ConfigurationError)"
| "create (Some css) w = map_option Inr (walk css w)"

definition getToken :: "registry \<Rightarrow> js_value \<Rightarrow> string option" where
  "getToken tc token =
     find (\<lambda>key. map_option JSString (obj_get tc key) = Some token) (Object_keys tc)"

fun template_text :: "js_value \<Rightarrow> string" where
  "template_text (JSString s) = s"
| "template_text JSOther = []"

definition message :: "string \<Rightarrow> js_value \<Rightarrow> string" where
  "message tok val =
     ''Use token '' @ [CHR 0x27] @ tok @ [CHR 0x27] @ '' instead of hard-coded color ''
       @ [CHR 0x27] @ template_text val @ [CHR 0x27] @ ''.''"

text \<open>The test \<open>if (getToken(value))\<close> holds for a name that is found and not empty.\<close>

definition Property :: "node \<Rightarrow> world \<Rightarrow> world" where
  "Property n w =
     (if key_name n = Some ''color'' then
        (let val = lit_value n in
           case getToken (tokenColors w) val of
             None \<Rightarrow> w
           | Some tok \<Rightarrow>
               if tok \<noteq> [] then w\<lparr>reports := reports w @ [(n, message tok val)]\<rparr> else w)
      else w)"

definition initial :: world where
  "initial = \<lparr>tokenColors = [], console = [], reports = []\<rparr>"


section \<open>Notions used in the statements\<close>

text \<open>
  \<open>occurs_at s pat i\<close>: the text \<open>pat\<close> stands in \<open>s\<close> at position \<open>i\<close>;
  \<open>first_occurrence\<close>: and at no earlier position.
\<close>

definition occurs_at :: "string \<Rightarrow> string \<Rightarrow> nat \<Rightarrow> bool" where
  "occurs_at s pat i = (i \<le> length s \<and> take (length pat) (drop i s) = pat)"

definition first_occurrence :: "string \<Rightarrow> string \<Rightarrow> nat \<Rightarrow> bool" where
  "first_occurrence s pat i = (occurs_at s pat i \<and> (\<forall>j<i. \<not> occurs_at s pat j))"

text \<open>The guard under which the visitor writes to the registry.\<close>

definition admitted :: "css_decl \<Rightarrow> bool" where
  "admitted d = (str_startsWith (decl_prop d) ''--'' \<and> isColor (decl_value d))"

text \<open>
  \<open>process cs\<close> is the visitor called on the declarations \<open>cs\<close> one after the other,
  whatever the reason for the calls; it returns the rewritten declarations and the module
  state.  A run of \<open>walk\<close> is such a sequence of calls: the sheet followed by the
  re-visits (lemma \<open>walk_calls\<close>).
\<close>

fun process :: "css_decl list \<Rightarrow> world \<Rightarrow> css_decl list \<times> world" where
  "process [] w = ([], w)"
| "process (d # ds) w =
     (case Declaration d w of (d', w') \<Rightarrow>
        (case process ds w' of (ds', w'') \<Rightarrow> (d' # ds', w'')))"

text \<open>
  \<open>thinned xs ys\<close>: the sheet \<open>xs\<close> is the sheet \<open>ys\<close> with some declarations that fail
  the guard taken out.
\<close>

inductive thinned :: "css_decl list \<Rightarrow> css_decl list \<Rightarrow> bool" where
  thin_nil: "thinned [] []"
| thin_keep: "thinned xs ys \<Longrightarrow> thinned (x # xs) (x # ys)"
| thin_skip: "\<not> admitted y \<Longrightarrow> thinned xs ys \<Longrightarrow> thinned xs (y # ys)"

text \<open>
  The module states that can arise: the registry starts empty when the module is loaded,
  every instantiation of the rule runs \<open>create\<close> on the state left by the previous ones,
  and the host calls \<open>Property\<close> on the nodes it visits.
\<close>

inductive reachable :: "world \<Rightarrow> bool" where
  start: "reachable initial"
| built: "reachable w \<Longrightarrow> create (Some css) w = Some (Inr w') \<Longrightarrow> reachable w'"
| visited: "reachable w \<Longrightarrow> reachable (Property n w)"


section \<open>Auxiliary facts\<close>

subsection \<open>Searching in strings\<close>

lemma occurs_at_Cons_Suc: "occurs_at (c # cs) pat (Suc i) = occurs_at cs pat i"
  by (simp add: occurs_at_def)

lemma occurs_at_0: "occurs_at s pat 0 = str_startsWith s pat"
  by (simp add: occurs_at_def str_startsWith_def)

lemma occurs_at_Nil: "occurs_at [] pat i = (pat = [] \<and> i = 0)"
  by (auto simp: occurs_at_def)

lemma search_Some: "search pat s = Some k \<Longrightarrow> first_occurrence s pat k"
proof (induction s arbitrary: k)
  case Nil
  then show ?case
    by (simp add: first_occurrence_def occurs_at_Nil split: if_splits)
next
  case (Cons c cs)
  show ?case
  proof (cases "str_startsWith (c # cs) pat")
    case True
    with Cons.prems show ?thesis
      by (simp add: first_occurrence_def occurs_at_0)
  next
    case False
    with Cons.prems obtain k' where k': "search pat cs = Some k'" "k = Suc k'"
      by auto
    from Cons.IH [OF k'(1)] have ih: "first_occurrence cs pat k'" .
    have "\<not> occurs_at (c # cs) pat j" if "j < Suc k'" for j
    proof (cases j)
      case 0
      with False show ?thesis by (simp add: occurs_at_0)
    next
      case (Suc j')
      with that ih show ?thesis
        by (simp add: first_occurrence_def occurs_at_Cons_Suc)
    qed
    with ih k'(2) show ?thesis
      by (simp add: first_occurrence_def occurs_at_Cons_Suc)
  qed
qed

lemma search_None: "search pat s = None \<Longrightarrow> \<not> occurs_at s pat j"
proof (induction s arbitrary: j)
  case Nil
  then show ?case by (simp add: occurs_at_Nil split: if_splits)
next
  case (Cons c cs)
  from Cons.prems have ns: "\<not> str_startsWith (c # cs) pat" and rest: "search pat cs = None"
    by (auto split: if_splits)
  show ?case
  proof (cases j)
    case 0
    with ns show ?thesis by (simp add: occurs_at_0)
  next
    case (Suc j')
    with Cons.IH [OF rest] show ?thesis by (simp add: occurs_at_Cons_Suc)
  qed
qed

lemma indexOf_0_found:
  "str_indexOf s pat 0 \<noteq> - 1 \<Longrightarrow> \<exists>a. str_indexOf s pat 0 = int a \<and> first_occurrence s pat a"
  by (auto simp: str_indexOf_def split: option.splits dest: search_Some)

lemma indexOf_0_absent: "str_indexOf s pat 0 = - 1 \<Longrightarrow> \<not> occurs_at s pat j"
  by (auto simp: str_indexOf_def split: option.splits dest: search_None)

lemma includes_iff: "str_includes s pat = (\<exists>i. occurs_at s pat i)"
proof
  assume "str_includes s pat"
  then obtain a where "first_occurrence s pat a"
    unfolding str_includes_def using indexOf_0_found by blast
  then show "\<exists>i. occurs_at s pat i" by (auto simp: first_occurrence_def)
next
  assume "\<exists>i. occurs_at s pat i"
  then show "str_includes s pat"
    unfolding str_includes_def using indexOf_0_absent by blast
qed

lemma occurs_at_char: "occurs_at s [c] i = (i < length s \<and> s ! i = c)"
proof (cases "i < length s")
  case True
  then show ?thesis
    by (simp add: occurs_at_def take_Suc_conv_app_nth hd_drop_conv_nth Cons_nth_drop_Suc [symmetric])
next
  case False
  then show ?thesis by (auto simp: occurs_at_def)
qed

lemma occurs_at_drop_iff: "n \<le> length s \<Longrightarrow> occurs_at (drop n s) pat i = occurs_at s pat (n + i)"
  by (auto simp: occurs_at_def add.commute)

lemma includes_char: "str_includes s [c] = (c \<in> set s)"
  by (auto simp: includes_iff occurs_at_char in_set_conv_nth)

lemma indexOf_char_absent:
  assumes "a \<le> length s" and "str_indexOf s [c] (int a) = - 1"
  shows "\<forall>j. a \<le> j \<and> j < length s \<longrightarrow> s ! j \<noteq> c"
proof (intro allI impI)
  fix j assume j: "a \<le> j \<and> j < length s"
  from assms have "search [c] (drop a s) = None"
    by (simp add: str_indexOf_def split: option.splits)
  then have "\<not> occurs_at (drop a s) [c] (j - a)" by (rule search_None)
  with assms(1) j have "\<not> occurs_at s [c] j"
    by (simp add: occurs_at_drop_iff)
  with j show "s ! j \<noteq> c" by (simp add: occurs_at_char)
qed

lemma indexOf_char_found:
  assumes "a \<le> length s" and "str_indexOf s [c] (int a) \<noteq> - 1"
  shows "\<exists>e. str_indexOf s [c] (int a) = int e \<and> a \<le> e \<and> e < length s \<and> s ! e = c
           \<and> (\<forall>j. a \<le> j \<and> j < e \<longrightarrow> s ! j \<noteq> c)"
proof -
  from assms obtain k where k: "search [c] (drop a s) = Some k"
    and idx: "str_indexOf s [c] (int a) = int (a + k)"
    by (auto simp: str_indexOf_def split: option.splits)
  from search_Some [OF k] have occ: "occurs_at (drop a s) [c] k"
    and before: "\<forall>j<k. \<not> occurs_at (drop a s) [c] j"
    by (simp_all add: first_occurrence_def)
  from occ assms(1) have "occurs_at s [c] (a + k)"
    by (simp add: occurs_at_drop_iff)
  then have here: "a + k < length s \<and> s ! (a + k) = c"
    by (simp add: occurs_at_char)
  have "s ! j \<noteq> c" if "a \<le> j \<and> j < a + k" for j
  proof -
    from that have "j - a < k" by arith
    with before have "\<not> occurs_at (drop a s) [c] (j - a)" by blast
    with assms(1) that have "\<not> occurs_at s [c] j" by (simp add: occurs_at_drop_iff)
    moreover from that here have "j < length s" by arith
    ultimately show ?thesis by (simp add: occurs_at_char)
  qed
  with idx here show ?thesis by (intro exI [of _ "a + k"]) auto
qed

lemma slice_span:
  assumes "a \<le> e" and "e < length s"
  shows "str_slice s (int a) (int e + 1) = take (e + 1 - a) (drop a s)"
proof -
  have "nat (int e + 1) = Suc e" by arith
  with assms show ?thesis
    by (simp add: str_slice_def Let_def min_def nat_diff_distrib')
qed

lemma slice_to_0: "str_slice s (int a) 0 = []"
  by (simp add: str_slice_def Let_def)

lemma occurs_at_append: 
  assumes "occurs_at s (p @ q) i" shows "occurs_at s p i"
proof -
  from assms have eq: "take (length (p @ q)) (drop i s) = p @ q" and le: "i \<le> length s"
    by (simp_all add: occurs_at_def)
  have "take (length p) (drop i s) = take (length p) (take (length (p @ q)) (drop i s))"
    by (simp add: min_def)
  also have "\<dots> = p" by (simp only: eq) simp
  finally show ?thesis using le by (simp add: occurs_at_def)
qed


subsection \<open>The extracted span\<close>

lemma isColor_anchor:
  assumes "isColor v" and "CHR ''#'' \<notin> set v"
  shows "str_indexOf v ''rgb'' 0 \<noteq> - 1"
proof -
  from assms have "str_includes v ''rgb('' \<or> str_includes v ''rgba(''"
    by (simp add: isColor_def includes_char)
  then obtain i where "occurs_at v ''rgb('' i \<or> occurs_at v ''rgba('' i"
    by (auto simp: includes_iff)
  then have "occurs_at v ''rgb'' i"
    using occurs_at_append [of v "''rgb''" "''(''" i] occurs_at_append [of v "''rgb''" "''a(''" i]
    by auto
  then show ?thesis using indexOf_0_absent by blast
qed

lemma first_occurrence_le: "first_occurrence s pat a \<Longrightarrow> a \<le> length s"
  by (simp add: first_occurrence_def occurs_at_def)

lemma span_node:
  "extractColorSpan v = (node, context, end, hexOrRgba) \<Longrightarrow>
     node = str_indexOf v (if CHR ''#'' \<in> set v then ''#'' else ''rgb'') 0"
  by (auto simp: extractColorSpan_def Let_def includes_char)

lemma anchor_exists:
  assumes "isColor v" and "extractColorSpan v = (node, context, end, hexOrRgba)"
  shows "\<exists>a. node = int a \<and> a \<le> length v
            \<and> first_occurrence v (if CHR ''#'' \<in> set v then ''#'' else ''rgb'') a"
proof -
  let ?tok = "if CHR ''#'' \<in> set v then ''#'' else ''rgb''"
  have "str_indexOf v ?tok 0 \<noteq> - 1"
  proof (cases "CHR ''#'' \<in> set v")
    case True
    then show ?thesis by (simp add: includes_char [symmetric] str_includes_def)
  next
    case False
    with assms(1) show ?thesis by (simp add: isColor_anchor)
  qed
  then obtain a where a: "str_indexOf v ?tok 0 = int a" "first_occurrence v ?tok a"
    using indexOf_0_found by blast
  from span_node [OF assms(2)] a(1) have "node = int a" by simp
  with a(2) first_occurrence_le [OF a(2)] show ?thesis by blast
qed

lemma span_parts:
  assumes "extractColorSpan v = (node, context, end, hexOrRgba)"
  shows "end = str_indexOf v '')'' node + 1" and "hexOrRgba = str_slice v node end"
    and "context = (if CHR ''#'' \<in> set v then ''#'' else ''rgb'')"
  using assms by (auto simp: extractColorSpan_def Let_def includes_char)

lemma span_unclosed:
  assumes "extractColorSpan v = (int a, context, end, hexOrRgba)" and "a \<le> length v"
    and "\<forall>j. a \<le> j \<and> j < length v \<longrightarrow> v ! j \<noteq> CHR '')''"
  shows "end = 0 \<and> hexOrRgba = []"
proof -
  have "str_indexOf v '')'' (int a) = - 1"
  proof (rule ccontr)
    assume "str_indexOf v '')'' (int a) \<noteq> - 1"
    from indexOf_char_found [OF assms(2) this] assms(3) show False by blast
  qed
  with span_parts(1,2) [OF assms(1)] show ?thesis by (simp add: slice_to_0)
qed

lemma span_closed:
  assumes "extractColorSpan v = (int a, context, end, hexOrRgba)" and "a \<le> length v"
    and "\<exists>j. a \<le> j \<and> j < length v \<and> v ! j = CHR '')''"
  shows "\<exists>e. end = int e + 1 \<and> a \<le> e \<and> e < length v \<and> v ! e = CHR '')''
           \<and> (\<forall>j. a \<le> j \<and> j < e \<longrightarrow> v ! j \<noteq> CHR '')'')
           \<and> hexOrRgba = take (e + 1 - a) (drop a v)"
proof -
  have "str_indexOf v '')'' (int a) \<noteq> - 1"
    using indexOf_char_absent [OF assms(2)] assms(3) by blast
  from indexOf_char_found [OF assms(2) this]
  obtain e where e: "str_indexOf v '')'' (int a) = int e" "a \<le> e" "e < length v"
    "v ! e = CHR '')''" "\<forall>j. a \<le> j \<and> j < e \<longrightarrow> v ! j \<noteq> CHR '')''"
    by blast
  from span_parts(1,2) [OF assms(1)] e(1) have "end = int e + 1" "hexOrRgba = str_slice v (int a) (int e + 1)"
    by simp_all
  with e slice_span [OF e(2,3)] show ?thesis by auto
qed


subsection \<open>The registry under the visitor\<close>

lemma obj_get_set: "obj_get (obj_set k v r) k' = (if k' = k then Some v else obj_get r k')"
  by (induction r) (auto simp: obj_get_def)

lemma keys_set:
  "Object_keys (obj_set k v r) =
     (if k \<in> set (Object_keys r) then Object_keys r else Object_keys r @ [k])"
  by (induction r) (auto simp: Object_keys_def)

lemma obj_get_in_keys: "obj_get r k = Some v \<Longrightarrow> k \<in> set (Object_keys r)"
  by (auto simp: obj_get_def Object_keys_def dest: map_of_SomeD intro: rev_image_eqI)

lemma Declaration_tokenColors:
  "tokenColors (snd (Declaration d w)) =
     (if admitted d then obj_set (decl_prop d) (decl_value d) (tokenColors w) else tokenColors w)"
  by (simp add: Declaration_def admitted_def Let_def split: prod.splits)

lemma Declaration_reports: "reports (snd (Declaration d w)) = reports w"
  by (simp add: Declaration_def Let_def split: prod.splits)

lemma process_Cons_snd: "snd (process (d # ds) w) = snd (process ds (snd (Declaration d w)))"
  by (simp split: prod.splits)

lemma process_append_snd: "snd (process (xs @ ys) w) = snd (process ys (snd (process xs w)))"
  by (induction xs arbitrary: w) (simp_all add: process_Cons_snd del: process.simps(2))

lemma process_reports: "reports (snd (process ds w)) = reports w"
  by (induction ds arbitrary: w) (simp_all add: process_Cons_snd Declaration_reports del: process.simps(2))

lemma process_get:
  "obj_get (tokenColors (snd (process ds w))) p =
     (case filter (\<lambda>e. admitted e \<and> decl_prop e = p) ds of
        [] \<Rightarrow> obj_get (tokenColors w) p
      | e # es \<Rightarrow> Some (decl_value (last (e # es))))"
proof (induction ds arbitrary: w)
  case Nil
  show ?case by simp
next
  case (Cons d ds)
  show ?case
    unfolding process_Cons_snd Cons.IH
    by (simp add: Declaration_tokenColors obj_get_set split: list.splits)
qed

lemma process_get_fresh:
  "obj_get (tokenColors (snd (process ds w))) p =
     (case obj_get (tokenColors (snd (process ds initial))) p of
        None \<Rightarrow> obj_get (tokenColors w) p
      | Some v \<Rightarrow> Some v)"
proof -
  have "obj_get (tokenColors initial) p = None" by (simp add: initial_def obj_get_def)
  then show ?thesis by (simp add: process_get split: list.splits)
qed

lemma process_last_write:
  assumes "d \<in> set cs" and "admitted d"
  shows "obj_get (tokenColors (snd (process cs w))) (decl_prop d) =
           Some (decl_value (last (filter (\<lambda>e. admitted e \<and> decl_prop e = decl_prop d) cs)))"
proof -
  from assms have "d \<in> set (filter (\<lambda>e. admitted e \<and> decl_prop e = decl_prop d) cs)"
    by simp
  then obtain e es where "filter (\<lambda>e. admitted e \<and> decl_prop e = decl_prop d) cs = e # es"
    by (cases "filter (\<lambda>e. admitted e \<and> decl_prop e = decl_prop d) cs") auto
  then show ?thesis by (simp add: process_get)
qed

lemma process_cong:
  "tokenColors w1 = tokenColors w2 \<Longrightarrow>
     tokenColors (snd (process ds w1)) = tokenColors (snd (process ds w2))"
proof (induction ds arbitrary: w1 w2)
  case Nil
  then show ?case by simp
next
  case (Cons d ds)
  have "tokenColors (snd (Declaration d w1)) = tokenColors (snd (Declaration d w2))"
    by (simp add: Declaration_tokenColors Cons.prems)
  then show ?case
    unfolding process_Cons_snd by (rule Cons.IH)
qed

lemma keys_custom: 
  "\<forall>k\<in>set (Object_keys (tokenColors w)). str_startsWith k ''--'' \<Longrightarrow> 
   \<forall>k\<in>set (Object_keys (tokenColors (snd (process ds w)))). str_startsWith k ''--''"
proof (induction ds arbitrary: w)
  case Nil
  then show ?case by simp
next
  case (Cons d ds)
  have "\<forall>k\<in>set (Object_keys (tokenColors (snd (Declaration d w)))). str_startsWith k ''--''"
    using Cons.prems by (auto simp: Declaration_tokenColors keys_set admitted_def split: if_splits)
  then show ?case unfolding process_Cons_snd by (rule Cons.IH)
qed

lemma admitted_in_keys:
  assumes "e \<in> set ds" and "admitted e"
  shows "decl_prop e \<in> set (Object_keys (tokenColors (snd (process ds w))))"
proof -
  from assms have "e \<in> set (filter (\<lambda>x. admitted x \<and> decl_prop x = decl_prop e) ds)" by simp
  then obtain x xs where "filter (\<lambda>x. admitted x \<and> decl_prop x = decl_prop e) ds = x # xs"
    by (cases "filter (\<lambda>x. admitted x \<and> decl_prop x = decl_prop e) ds") auto
  then have "obj_get (tokenColors (snd (process ds w))) (decl_prop e) = Some (decl_value (last (x # xs)))"
    by (simp add: process_get)
  then show ?thesis by (rule obj_get_in_keys)
qed

lemma process_snoc_keys:
  "Object_keys (tokenColors (snd (process (ds @ [d]) w))) =
     (if admitted d \<and> decl_prop d \<notin> set (Object_keys (tokenColors (snd (process ds w))))
      then Object_keys (tokenColors (snd (process ds w))) @ [decl_prop d]
      else Object_keys (tokenColors (snd (process ds w))))"
  by (simp add: process_append_snd process_Cons_snd Declaration_tokenColors keys_set
           del: process.simps(2))

lemma keys_distinct:
  "distinct (Object_keys (tokenColors w)) \<Longrightarrow> distinct (Object_keys (tokenColors (snd (process ds w))))"
proof (induction ds arbitrary: w)
  case Nil
  then show ?case by simp
next
  case (Cons d ds)
  have "distinct (Object_keys (tokenColors (snd (Declaration d w))))"
    using Cons.prems by (auto simp: Declaration_tokenColors keys_set)
  then show ?case unfolding process_Cons_snd by (rule Cons.IH)
qed

lemma keys_distinct_initial: "distinct (Object_keys (tokenColors (snd (process ds initial))))"
  by (rule keys_distinct) (simp add: initial_def Object_keys_def)

lemma keys_have_entries: "k \<in> set (Object_keys r) \<Longrightarrow> \<exists>v. obj_get r k = Some v"
  by (cases "map_of r k") (auto simp: obj_get_def Object_keys_def map_of_eq_None_iff)

lemma keys_from_admitted:
  assumes "k \<in> set (Object_keys (tokenColors (snd (process ds initial))))"
  shows "\<exists>e\<in>set ds. admitted e \<and> decl_prop e = k"
proof -
  from keys_have_entries [OF assms] obtain v where
    v: "obj_get (tokenColors (snd (process ds initial))) k = Some v" by blast
  have "obj_get (tokenColors initial) k = None" by (simp add: initial_def obj_get_def)
  with v have "filter (\<lambda>e. admitted e \<and> decl_prop e = k) ds \<noteq> []"
    by (auto simp: process_get)
  then obtain e where "e \<in> set (filter (\<lambda>e. admitted e \<and> decl_prop e = k) ds)"
    by (cases "filter (\<lambda>e. admitted e \<and> decl_prop e = k) ds") auto
  then show ?thesis by auto
qed

lemma keys_insertion_order:
  "Object_keys (tokenColors (snd (process ds initial))) = bef @ n # aft \<Longrightarrow>
     \<exists>pre d post. ds = pre @ d # post \<and> admitted d \<and> decl_prop d = n
        \<and> set bef = decl_prop ` {e \<in> set pre. admitted e}"
proof (induction ds arbitrary: bef aft rule: rev_induct)
  case Nil
  then show ?case by (simp add: initial_def Object_keys_def)
next
  case (snoc d ds)
  let ?K = "Object_keys (tokenColors (snd (process ds initial)))"
  have extend: "\<exists>pre d0 post. ds @ [d] = pre @ d0 # post \<and> admitted d0 \<and> decl_prop d0 = n
        \<and> set bef = decl_prop ` {e \<in> set pre. admitted e}" if "?K = bef @ n # aft'" for aft'
  proof -
    from snoc.IH [OF that] obtain pre d0 post where
      "ds = pre @ d0 # post" "admitted d0" "decl_prop d0 = n"
      "set bef = decl_prop ` {e \<in> set pre. admitted e}" by blast
    then have "ds @ [d] = pre @ d0 # (post @ [d]) \<and> admitted d0 \<and> decl_prop d0 = n
        \<and> set bef = decl_prop ` {e \<in> set pre. admitted e}" by simp
    then show ?thesis by blast
  qed
  show ?case
  proof (cases "admitted d \<and> decl_prop d \<notin> set ?K")
    case False
    with snoc.prems have "?K = bef @ n # aft" by (simp add: process_snoc_keys)
    then show ?thesis by (rule extend)
  next
    case True
    with snoc.prems have eq: "?K @ [decl_prop d] = bef @ n # aft" by (simp add: process_snoc_keys)
    show ?thesis
    proof (cases aft rule: rev_cases)
      case Nil
      with eq have K: "?K = bef" and n: "decl_prop d = n" by simp_all
      have "set ?K = decl_prop ` {e \<in> set ds. admitted e}"
        using admitted_in_keys [of _ ds initial] keys_from_admitted [of _ ds] by fast
      with K n True have "ds @ [d] = ds @ d # [] \<and> admitted d \<and> decl_prop d = n
        \<and> set bef = decl_prop ` {e \<in> set ds. admitted e}" by simp
      then show ?thesis by blast
    next
      case (snoc aft' x)
      with eq have "?K = bef @ n # aft'" by simp
      then show ?thesis by (rule extend)
    qed
  qed
qed


subsection \<open>Passes and re-visits\<close>

lemma Declaration_fst: "fst (Declaration d w) = fst (Declaration d w2)"
  by (simp add: Declaration_def Let_def split: prod.splits)

lemma Declaration_prop: "decl_prop (fst (Declaration d w)) = decl_prop d"
  by (simp add: Declaration_def Let_def split: prod.splits)

lemma Declaration_unchanged: "\<not> isColor (decl_value d) \<Longrightarrow> fst (Declaration d w) = d"
  by (simp add: Declaration_def Let_def isColor_def)

lemma pass_Cons:
  "pass (d # ds) w =
     ((if decl_value (fst (Declaration d w)) = decl_value d then [] else [fst (Declaration d w)])
        @ fst (pass ds (snd (Declaration d w))),
      snd (pass ds (snd (Declaration d w))))"
  by (simp split: prod.splits)

lemma pass_snd: "snd (pass ds w) = snd (process ds w)"
  by (induction ds arbitrary: w) (simp_all add: pass_Cons process_Cons_snd del: pass.simps(2) process.simps(2))

lemma pass_fst: "fst (pass ds w) = fst (pass ds w2)"
proof (induction ds arbitrary: w w2)
  case Nil
  show ?case by simp
next
  case (Cons d ds)
  have "fst (pass ds (snd (Declaration d w))) = fst (pass ds (snd (Declaration d w2)))"
    by (rule Cons.IH)
  then show ?case
    using Declaration_fst [of d w w2] by (simp add: pass_Cons del: pass.simps(2))
qed

lemma pass_origin:
  "e \<in> set (fst (pass ds w)) \<Longrightarrow>
     \<exists>d\<in>set ds. decl_prop e = decl_prop d \<and> isColor (decl_value d)"
proof (induction ds arbitrary: w)
  case Nil
  then show ?case by simp
next
  case (Cons d ds)
  from Cons.prems consider
    "e = fst (Declaration d w)" "decl_value (fst (Declaration d w)) \<noteq> decl_value d"
    | "e \<in> set (fst (pass ds (snd (Declaration d w))))"
    by (auto simp: pass_Cons simp del: pass.simps(2) split: if_splits)
  then show ?case
  proof cases
    case 1
    then have "isColor (decl_value d)" using Declaration_unchanged [of d w] by metis
    with 1 show ?thesis by (auto simp: Declaration_prop)
  next
    case 2
    from Cons.IH [OF this] show ?thesis by auto
  qed
qed

lemma walk_calls:
  assumes "walk ds w = Some w'"
  shows "\<exists>rest. w' = snd (process (ds @ rest) w)
        \<and> (\<forall>w2. walk ds w2 = Some (snd (process (ds @ rest) w2)))
        \<and> (\<forall>e\<in>set rest. \<exists>d\<in>set ds. decl_prop e = decl_prop d \<and> isColor (decl_value d))"
proof (rule walk.raw_induct [where P = "\<lambda>ds w w'.
     \<exists>rest. w' = snd (process (ds @ rest) w)
        \<and> (\<forall>w2. walk ds w2 = Some (snd (process (ds @ rest) w2)))
        \<and> (\<forall>e\<in>set rest. \<exists>d\<in>set ds. decl_prop e = decl_prop d \<and> isColor (decl_value d))",
     OF _ assms])
  fix f :: "css_decl list \<Rightarrow> world \<Rightarrow> world option" and ds w w'
  assume IH: "\<And>ds w w'. f ds w = Some w' \<Longrightarrow>
     \<exists>rest. w' = snd (process (ds @ rest) w)
        \<and> (\<forall>w2. walk ds w2 = Some (snd (process (ds @ rest) w2)))
        \<and> (\<forall>e\<in>set rest. \<exists>d\<in>set ds. decl_prop e = decl_prop d \<and> isColor (decl_value d))"
    and eq: "(if ds = [] then Some w else case pass ds w of (dirty', w') \<Rightarrow> f dirty' w') = Some w'"
  show "\<exists>rest. w' = snd (process (ds @ rest) w)
        \<and> (\<forall>w2. walk ds w2 = Some (snd (process (ds @ rest) w2)))
        \<and> (\<forall>e\<in>set rest. \<exists>d\<in>set ds. decl_prop e = decl_prop d \<and> isColor (decl_value d))"
  proof (cases "ds = []")
    case True
    with eq have "w' = w" by simp
    with True have "w' = snd (process (ds @ []) w)
        \<and> (\<forall>w2. walk ds w2 = Some (snd (process (ds @ []) w2)))
        \<and> (\<forall>e\<in>set []. \<exists>d\<in>set ds. decl_prop e = decl_prop d \<and> isColor (decl_value d))"
      by (simp add: walk.simps)
    then show ?thesis by blast
  next
    case False
    let ?ds1 = "fst (pass ds w)"
    from False eq have "f ?ds1 (snd (pass ds w)) = Some w'"
      by (simp split: prod.splits)
    from IH [OF this] obtain rest where
      r1: "w' = snd (process (?ds1 @ rest) (snd (pass ds w)))"
      and r2: "\<forall>w2. walk ?ds1 w2 = Some (snd (process (?ds1 @ rest) w2))"
      and r3: "\<forall>e\<in>set rest. \<exists>d\<in>set ?ds1. decl_prop e = decl_prop d \<and> isColor (decl_value d)"
      by blast
    from r1 have a: "w' = snd (process (ds @ ?ds1 @ rest) w)"
      by (simp add: process_append_snd pass_snd)
    have b: "walk ds w2 = Some (snd (process (ds @ ?ds1 @ rest) w2))" for w2
    proof -
      have "walk ds w2 = walk (fst (pass ds w2)) (snd (pass ds w2))"
        using False by (subst walk.simps) (simp split: prod.splits)
      also have "fst (pass ds w2) = ?ds1" by (rule pass_fst)
      finally show ?thesis using r2 by (simp add: process_append_snd pass_snd)
    qed
    have c: "\<exists>d\<in>set ds. decl_prop e = decl_prop d \<and> isColor (decl_value d)"
      if "e \<in> set (?ds1 @ rest)" for e
    proof (cases "e \<in> set ?ds1")
      case True
      then show ?thesis by (rule pass_origin)
    next
      case False
      with that r3 obtain d1 where "d1 \<in> set ?ds1" "decl_prop e = decl_prop d1" by auto
      with pass_origin [of d1 ds w] show ?thesis by auto
    qed
    from a b c show ?thesis by blast
  qed
qed

lemma create_calls:
  assumes "create (Some ds) w = Some (Inr w')"
  shows "\<exists>rest. w' = snd (process (ds @ rest) w)
        \<and> (\<forall>w2. create (Some ds) w2 = Some (Inr (snd (process (ds @ rest) w2))))
        \<and> (\<forall>e\<in>set rest. \<exists>d\<in>set ds. decl_prop e = decl_prop d \<and> isColor (decl_value d))"
proof -
  from assms have "walk ds w = Some w'" by auto
  from walk_calls [OF this] show ?thesis by simp
qed

lemma keys_stable:
  "\<forall>e\<in>set cs. admitted e \<longrightarrow> decl_prop e \<in> set (Object_keys (tokenColors w)) \<Longrightarrow>
     Object_keys (tokenColors (snd (process cs w))) = Object_keys (tokenColors w)"
proof (induction cs arbitrary: w)
  case Nil
  show ?case by simp
next
  case (Cons c cs)
  from Cons.prems have k: "Object_keys (tokenColors (snd (Declaration c w))) = Object_keys (tokenColors w)"
    by (simp add: Declaration_tokenColors keys_set)
  with Cons.prems have "\<forall>e\<in>set cs. admitted e \<longrightarrow>
      decl_prop e \<in> set (Object_keys (tokenColors (snd (Declaration c w))))" by simp
  from Cons.IH [OF this] k show ?case by (simp add: process_Cons_snd del: process.simps(2))
qed

lemma revisits_add_no_keys:
  assumes "\<forall>e\<in>set rest. \<exists>d\<in>set ds. decl_prop e = decl_prop d \<and> isColor (decl_value d)"
  shows "Object_keys (tokenColors (snd (process (ds @ rest) w)))
           = Object_keys (tokenColors (snd (process ds w)))"
proof -
  have "decl_prop e \<in> set (Object_keys (tokenColors (snd (process ds w))))"
    if "e \<in> set rest" "admitted e" for e
  proof -
    from assms that(1) obtain d where d: "d \<in> set ds" "decl_prop e = decl_prop d"
      "isColor (decl_value d)" by blast
    with that(2) have "admitted d" by (simp add: admitted_def)
    with d(1) have "decl_prop d \<in> set (Object_keys (tokenColors (snd (process ds w))))"
      by (rule admitted_in_keys)
    with d(2) show ?thesis by simp
  qed
  then show ?thesis by (simp add: process_append_snd keys_stable)
qed

lemma thinned_Nil: "thinned xs [] \<Longrightarrow> xs = []"
  by (cases rule: thinned.cases) auto

lemma thinned_refl: "thinned xs xs"
  by (induction xs) (auto intro: thinned.intros)

lemma thinned_prepend: "thinned xs ys \<Longrightarrow> thinned (h @ xs) (h @ ys)"
  by (induction h) (auto intro: thinned.intros)

lemma thinned_remove: "\<not> admitted d \<Longrightarrow> thinned (pre @ post) (pre @ d # post)"
  by (rule thinned_prepend) (auto intro: thinned.intros thinned_refl)

lemma rewritten_unadmitted:
  assumes "\<not> admitted y" and "decl_value (fst (Declaration y w)) \<noteq> decl_value y"
  shows "\<not> admitted (fst (Declaration y w))"
proof -
  from assms(2) have "isColor (decl_value y)" using Declaration_unchanged [of y w] by metis
  with assms(1) have "\<not> str_startsWith (decl_prop y) ''--''" by (simp add: admitted_def)
  then show ?thesis by (simp add: admitted_def Declaration_prop)
qed

lemma thinned_pass: "thinned xs ys \<Longrightarrow> thinned (fst (pass xs u)) (fst (pass ys w))"
proof (induction arbitrary: u w rule: thinned.induct)
  case thin_nil
  show ?case by (simp add: thinned.thin_nil)
next
  case (thin_keep xs ys x)
  have "thinned (fst (pass xs (snd (Declaration x u)))) (fst (pass ys (snd (Declaration x w))))"
    by (rule thin_keep.IH)
  then show ?case
    using Declaration_fst [of x u w]
    by (auto simp: pass_Cons simp del: pass.simps(2) intro: thinned.intros)
next
  case (thin_skip y xs ys)
  have rest: "thinned (fst (pass xs u)) (fst (pass ys (snd (Declaration y w))))"
    by (rule thin_skip.IH)
  show ?case
  proof (cases "decl_value (fst (Declaration y w)) = decl_value y")
    case True
    with rest show ?thesis by (simp add: pass_Cons del: pass.simps(2))
  next
    case False
    with thin_skip.hyps(1) have "\<not> admitted (fst (Declaration y w))"
      by (rule rewritten_unadmitted)
    with rest False show ?thesis
      by (simp add: pass_Cons thinned.thin_skip del: pass.simps(2))
  qed
qed

lemma thinned_process:
  "thinned xs ys \<Longrightarrow> tokenColors u = tokenColors w \<Longrightarrow>
     tokenColors (snd (process xs u)) = tokenColors (snd (process ys w))"
proof (induction arbitrary: u w rule: thinned.induct)
  case thin_nil
  then show ?case by simp
next
  case (thin_keep xs ys x)
  from thin_keep.prems
  have "tokenColors (snd (Declaration x u)) = tokenColors (snd (Declaration x w))"
    by (simp add: Declaration_tokenColors)
  from thin_keep.IH [OF this] show ?case by (simp add: process_Cons_snd del: process.simps(2))
next
  case (thin_skip y xs ys)
  from thin_skip.hyps(1) thin_skip.prems
  have "tokenColors u = tokenColors (snd (Declaration y w))"
    by (simp add: Declaration_tokenColors)
  from thin_skip.IH [OF this] show ?case by (simp add: process_Cons_snd del: process.simps(2))
qed

lemma walk_thinned:
  assumes "walk ys w = Some w1"
  shows "\<forall>xs u. thinned xs ys \<and> tokenColors u = tokenColors w \<longrightarrow>
           (\<exists>w2. walk xs u = Some w2 \<and> tokenColors w2 = tokenColors w1)"
proof (rule walk.raw_induct [where P = "\<lambda>ys w w1.
     \<forall>xs u. thinned xs ys \<and> tokenColors u = tokenColors w \<longrightarrow>
           (\<exists>w2. walk xs u = Some w2 \<and> tokenColors w2 = tokenColors w1)", OF _ assms])
  fix f :: "css_decl list \<Rightarrow> world \<Rightarrow> world option" and ys w w1
  assume IH: "\<And>ys w w1. f ys w = Some w1 \<Longrightarrow>
     \<forall>xs u. thinned xs ys \<and> tokenColors u = tokenColors w \<longrightarrow>
           (\<exists>w2. walk xs u = Some w2 \<and> tokenColors w2 = tokenColors w1)"
    and eq: "(if ys = [] then Some w else case pass ys w of (dirty', w') \<Rightarrow> f dirty' w') = Some w1"
  show "\<forall>xs u. thinned xs ys \<and> tokenColors u = tokenColors w \<longrightarrow>
           (\<exists>w2. walk xs u = Some w2 \<and> tokenColors w2 = tokenColors w1)"
  proof (intro allI impI)
    fix xs and u :: world
    assume a: "thinned xs ys \<and> tokenColors u = tokenColors w"
    show "\<exists>w2. walk xs u = Some w2 \<and> tokenColors w2 = tokenColors w1"
    proof (cases "ys = []")
      case True
      with a have "xs = []" by (simp add: thinned_Nil)
      moreover from True eq have "w1 = w" by simp
      ultimately show ?thesis using a by (simp add: walk.simps)
    next
      case False
      with eq have "f (fst (pass ys w)) (snd (pass ys w)) = Some w1"
        by (simp split: prod.splits)
      from IH [OF this] have step: "\<forall>xs u. thinned xs (fst (pass ys w))
             \<and> tokenColors u = tokenColors (snd (pass ys w)) \<longrightarrow>
           (\<exists>w2. walk xs u = Some w2 \<and> tokenColors w2 = tokenColors w1)" .
      from a have t1: "thinned (fst (pass xs u)) (fst (pass ys w))" by (simp add: thinned_pass)
      from a have t2: "tokenColors (snd (pass xs u)) = tokenColors (snd (pass ys w))"
        by (simp add: pass_snd thinned_process)
      from step t1 t2 obtain w2 where
        w2: "walk (fst (pass xs u)) (snd (pass xs u)) = Some w2" "tokenColors w2 = tokenColors w1"
        by blast
      have "walk xs u = walk (fst (pass xs u)) (snd (pass xs u))"
        by (subst walk.simps) (simp add: walk.simps split: prod.splits)
      with w2 show ?thesis by simp
    qed
  qed
qed

subsection \<open>The lookup and the node handler\<close>

lemma getToken_Some: "getToken r (JSString v) = Some n \<Longrightarrow> obj_get r n = Some v"
  by (auto simp: getToken_def find_Some_iff)

lemma getToken_first:
  assumes "getToken r (JSString v) = Some n"
  shows "\<exists>bef aft. Object_keys r = bef @ n # aft \<and> (\<forall>k\<in>set bef. obj_get r k \<noteq> Some v)"
proof -
  from assms obtain i where i: "i < length (Object_keys r)" "Object_keys r ! i = n"
    "\<forall>j<i. obj_get r (Object_keys r ! j) \<noteq> Some v"
    by (auto simp: getToken_def find_Some_iff)
  have "Object_keys r = take i (Object_keys r) @ n # drop (Suc i) (Object_keys r)"
    using id_take_nth_drop [OF i(1)] i(2) by simp
  moreover have "\<forall>k\<in>set (take i (Object_keys r)). obj_get r k \<noteq> Some v"
    using i(1,3) by (auto simp: in_set_conv_nth)
  ultimately show ?thesis by blast
qed

lemma getToken_None: "(getToken r (JSString v) = None) = (\<forall>n. obj_get r n \<noteq> Some v)"
  by (auto simp: getToken_def find_None_iff dest: obj_get_in_keys)

lemma getToken_found: 
  "obj_get r k = Some v \<Longrightarrow> \<exists>n. getToken r (JSString v) = Some n \<and> obj_get r n = Some v"
  using getToken_None [of r v] getToken_Some [of r v] by (cases "getToken r (JSString v)") auto

lemma getToken_other: "getToken r JSOther = None"
  by (auto simp: getToken_def find_None_iff split: option.splits)

lemma Property_tokenColors: "tokenColors (Property n w) = tokenColors w"
  by (simp add: Property_def Let_def split: option.splits)

lemma Property_console: "console (Property n w) = console w"
  by (simp add: Property_def Let_def split: option.splits)

lemma reachable_keys:
  "reachable w \<Longrightarrow> \<forall>k\<in>set (Object_keys (tokenColors w)). str_startsWith k ''--''"
proof (induction rule: reachable.induct)
  case start
  show ?case by (simp add: initial_def Object_keys_def)
next
  case (built w css w')
  from create_calls [OF built.hyps(2)] obtain rest where "w' = snd (process (css @ rest) w)"
    by blast
  with built.IH show ?case using keys_custom [of w "css @ rest"] by simp
next
  case (visited w n)
  then show ?case by (simp add: Property_tokenColors)
qed

lemma reachable_token_nonempty:
  assumes "reachable w" and "getToken (tokenColors w) val = Some tok"
  shows "tok \<noteq> []"
proof -
  from assms(2) have "tok \<in> set (Object_keys (tokenColors w))"
    by (auto simp: getToken_def find_Some_iff)
  with reachable_keys [OF assms(1)] have "str_startsWith tok ''--''" by blast
  then show ?thesis by (auto simp: str_startsWith_def)
qed

lemma fold_Property_tokenColors: "tokenColors (fold Property ns w) = tokenColors w"
  by (induction ns arbitrary: w) (simp_all add: Property_tokenColors)

lemma fold_Property_console: "console (fold Property ns w) = console w"
  by (induction ns arbitrary: w) (simp_all add: Property_console)

lemma Property_reports:
  "tokenColors w1 = tokenColors w2 \<Longrightarrow>
     \<exists>rs. reports (Property n w1) = reports w1 @ rs \<and> reports (Property n w2) = reports w2 @ rs"
  by (simp add: Property_def Let_def split: option.splits)


section \<open>Properties of the matching engine\<close>

subsection \<open>Building the registry\<close>

text \<open>
  Claim C1 (last write wins).  Over the calls of the visitor the last write wins (lemma
  \<open>process_last_write\<close>), but a build does not keep to the declarations of the sheet.
  In the sheet \<open>--a: rgb(0,0,0) #fff; --a: #222\<close> both declarations pass the guard and
  the last one has the text \<open>#222\<close>.  The first pass stores it, and rewrites the first
  declaration to \<open>rgb(0,0,0) color()fff\<close>; that declaration is visited again, still
  carries a marker, and its rewritten text replaces \<open>#222\<close> in the registry.
\<close>

theorem revisit_overwrites_last_write:
  "create (Some [\<lparr>decl_prop = ''--a'', decl_value = ''rgb(0,0,0) #fff''\<rparr>,
                 \<lparr>decl_prop = ''--a'', decl_value = ''#222''\<rparr>]) initial
     = Some (Inr \<lparr>tokenColors = [(''--a'', ''rgb(0,0,0) color()fff'')],
                  console = [(''#'', 0, ''rgb(0,0,0) #fff''), (''#'', 0, ''#222''),
                             (''rgb'', 10, ''rgb(0,0,0) color()fff'')],
                  reports = []\<rparr>)
   \<and> admitted \<lparr>decl_prop = ''--a'', decl_value = ''rgb(0,0,0) #fff''\<rparr>
   \<and> admitted \<lparr>decl_prop = ''--a'', decl_value = ''#222''\<rparr>
   \<and> obj_get [(''--a'', ''rgb(0,0,0) color()fff'')] ''--a'' = Some ''rgb(0,0,0) color()fff''"
  by code_simp

text \<open>
  Claim C6 (frame).  A declaration whose name does not begin with \<open>--\<close>, or whose text
  contains no colour marker, leaves the registry as it was: the visitor returns the same
  registry, taking the declaration out of any sequence of calls does not change the
  registry the calls produce, and when a build over a sheet returns, the build over the
  sheet without that declaration returns with the same registry.
\<close>

theorem unadmitted_declaration_frame:
  assumes "\<not> str_startsWith (decl_prop d) ''--'' \<or> \<not> isColor (decl_value d)"
  shows "tokenColors (snd (Declaration d w)) = tokenColors w
     \<and> tokenColors (snd (process (pre @ d # post) w)) = tokenColors (snd (process (pre @ post) w))
     \<and> (\<forall>w1. create (Some (pre @ d # post)) w = Some (Inr w1) \<longrightarrow>
          (\<exists>w2. create (Some (pre @ post)) w = Some (Inr w2) \<and> tokenColors w2 = tokenColors w1))"
proof -
  from assms have na: "\<not> admitted d" by (auto simp: admitted_def)
  then have one: "tokenColors (snd (Declaration d w')) = tokenColors w'" for w'
    by (simp add: Declaration_tokenColors)
  have "tokenColors (snd (process post (snd (Declaration d (snd (process pre w))))))
          = tokenColors (snd (process post (snd (process pre w))))"
    by (rule process_cong) (rule one)
  with one have two: "tokenColors (snd (process (pre @ d # post) w))
      = tokenColors (snd (process (pre @ post) w))"
    by (simp add: process_append_snd process_Cons_snd del: process.simps(2))
  have three: "\<exists>w2. create (Some (pre @ post)) w = Some (Inr w2) \<and> tokenColors w2 = tokenColors w1"
    if "create (Some (pre @ d # post)) w = Some (Inr w1)" for w1
  proof -
    from that have "walk (pre @ d # post) w = Some w1" by auto
    from walk_thinned [OF this] thinned_remove [OF na, of pre post]
    obtain w2 where "walk (pre @ post) w = Some w2" "tokenColors w2 = tokenColors w1" by blast
    then show ?thesis by simp
  qed
  from one two three show ?thesis by blast
qed

theorem unadmitted_declaration_frame_witness:
  "\<not> str_startsWith ''color'' ''--''
   \<and> tokenColors (snd (process [\<lparr>decl_prop = ''--brand'', decl_value = ''#112233''\<rparr>,
                                 \<lparr>decl_prop = ''color'', decl_value = ''#112233''\<rparr>] initial))
       = [(''--brand'', ''#112233'')]
   \<and> create (Some [\<lparr>decl_prop = ''--brand'', decl_value = ''#112233''\<rparr>,
                   \<lparr>decl_prop = ''color'', decl_value = ''#112233''\<rparr>]) initial
       = Some (Inr \<lparr>tokenColors = [(''--brand'', ''#112233'')],
                    console = [(''#'', 0, ''#112233''), (''#'', 0, ''#112233'')],
                    reports = []\<rparr>)
   \<and> (\<exists>w2. create (Some [\<lparr>decl_prop = ''--brand'', decl_value = ''#112233''\<rparr>]) initial
               = Some (Inr w2) \<and> tokenColors w2 = [(''--brand'', ''#112233'')])"
proof -
  let ?d = "\<lparr>decl_prop = ''color'', decl_value = ''#112233''\<rparr>"
  let ?b = "\<lparr>decl_prop = ''--brand'', decl_value = ''#112233''\<rparr>"
  let ?w1 = "\<lparr>tokenColors = [(''--brand'', ''#112233'')],
              console = [(''#'', 0, ''#112233''), (''#'', 0, ''#112233'')], reports = []\<rparr>"
  have h: "\<not> str_startsWith (decl_prop ?d) ''--'' \<or> \<not> isColor (decl_value ?d)" by code_simp
  have b: "tokenColors (snd (process [?b] initial)) = [(''--brand'', ''#112233'')]" by code_simp
  have c: "create (Some [?b, ?d]) initial = Some (Inr ?w1)" by code_simp
  note frame = unadmitted_declaration_frame [OF h, where pre = "[?b]" and post = "[]" and w = initial]
  from frame b
  have p: "tokenColors (snd (process [?b, ?d] initial)) = [(''--brand'', ''#112233'')]" by simp
  from frame c
  have s: "\<exists>w2. create (Some [?b]) initial = Some (Inr w2)
             \<and> tokenColors w2 = [(''--brand'', ''#112233'')]" by simp
  have n: "\<not> str_startsWith ''color'' ''--''" by code_simp
  from n p c s show ?thesis by blast
qed

text \<open>
  Claim C10 (the stored text is the original text).  A call of the visitor stores the text
  the declaration has on entry (lemma \<open>Declaration_tokenColors\<close>), but the rewrite in the
  same call makes the processor call the visitor again, on the rewritten text.  The sheet
  \<open>--a: #111 #222\<close> leaves \<open>--a\<close> mapped to \<open>color()111 #222\<close>, a text the sheet does
  not contain, and the literal \<open>#111 #222\<close> of the sheet is not found.
\<close>

theorem rewritten_text_stored:
  "create (Some [\<lparr>decl_prop = ''--a'', decl_value = ''#111 #222''\<rparr>]) initial
     = Some (Inr \<lparr>tokenColors = [(''--a'', ''color()111 #222'')],
                  console = [(''#'', 0, ''#111 #222''), (''#'', 0, ''color()111 #222'')],
                  reports = []\<rparr>)
   \<and> getToken [(''--a'', ''color()111 #222'')] (JSString ''#111 #222'') = None
   \<and> Declaration \<lparr>decl_prop = ''--a'', decl_value = ''#111 #222''\<rparr> initial
     = (\<lparr>decl_prop = ''--a'', decl_value = ''color()111 #222''\<rparr>,
        \<lparr>tokenColors = [(''--a'', ''#111 #222'')], console = [(''#'', 0, ''#111 #222'')],
           reports = []\<rparr>)"
  by code_simp

text \<open>
  Claim C4 (state across instantiations).  The registry is module state and is never
  reset: a second \<open>create\<close> works on what the first one left.  After building from
  \<open>A\<close> and then from \<open>B\<close>, a name is mapped to what a build from \<open>B\<close> alone gives it,
  and a name that \<open>B\<close> does not define keeps the entry it had after \<open>A\<close>.
\<close>

theorem registry_accumulates:
  assumes "create (Some A) w = Some (Inr wA)" and "create (Some B) wA = Some (Inr wAB)"
    and "create (Some B) initial = Some (Inr wB)"
  shows "obj_get (tokenColors wAB) p =
           (case obj_get (tokenColors wB) p of None \<Rightarrow> obj_get (tokenColors wA) p | Some v \<Rightarrow> Some v)"
proof -
  from create_calls [OF assms(2)] obtain rest where
    ab: "wAB = snd (process (B @ rest) wA)"
    and any: "\<forall>w2. create (Some B) w2 = Some (Inr (snd (process (B @ rest) w2)))" by blast
  from any assms(3) have b: "wB = snd (process (B @ rest) initial)" by simp
  from process_get_fresh [of "B @ rest" wA p] ab b show ?thesis by simp
qed

theorem registry_accumulates_witness:
  "create (Some [\<lparr>decl_prop = ''--a'', decl_value = ''#111''\<rparr>, \<lparr>decl_prop = ''--b'', decl_value = ''#000''\<rparr>]) initial
     = Some (Inr \<lparr>tokenColors = [(''--a'', ''#111''), (''--b'', ''#000'')],
            console = [(''#'', 0, ''#111''), (''#'', 0, ''#000'')], reports = []\<rparr>)
   \<and> create (Some [\<lparr>decl_prop = ''--b'', decl_value = ''#222''\<rparr>])
        \<lparr>tokenColors = [(''--a'', ''#111''), (''--b'', ''#000'')],
            console = [(''#'', 0, ''#111''), (''#'', 0, ''#000'')], reports = []\<rparr>
     = Some (Inr \<lparr>tokenColors = [(''--a'', ''#111''), (''--b'', ''#222'')],
            console = [(''#'', 0, ''#111''), (''#'', 0, ''#000''), (''#'', 0, ''#222'')], reports = []\<rparr>)
   \<and> create (Some [\<lparr>decl_prop = ''--b'', decl_value = ''#222''\<rparr>]) initial
     = Some (Inr \<lparr>tokenColors = [(''--b'', ''#222'')], console = [(''#'', 0, ''#222'')], reports = []\<rparr>)
   \<and> obj_get [(''--a'', ''#111''), (''--b'', ''#222'')] ''--a'' = Some ''#111''
   \<and> obj_get [(''--a'', ''#111''), (''--b'', ''#222'')] ''--b'' = Some ''#222''"
proof -
  let ?A = "[\<lparr>decl_prop = ''--a'', decl_value = ''#111''\<rparr>, \<lparr>decl_prop = ''--b'', decl_value = ''#000''\<rparr>]"
  let ?B = "[\<lparr>decl_prop = ''--b'', decl_value = ''#222''\<rparr>]"
  let ?wA = "\<lparr>tokenColors = [(''--a'', ''#111''), (''--b'', ''#000'')],
            console = [(''#'', 0, ''#111''), (''#'', 0, ''#000'')], reports = []\<rparr>"
  let ?wAB = "\<lparr>tokenColors = [(''--a'', ''#111''), (''--b'', ''#222'')],
            console = [(''#'', 0, ''#111''), (''#'', 0, ''#000''), (''#'', 0, ''#222'')], reports = []\<rparr>"
  let ?wB = "\<lparr>tokenColors = [(''--b'', ''#222'')], console = [(''#'', 0, ''#222'')], reports = []\<rparr>"
  have h1: "create (Some ?A) initial = Some (Inr ?wA)" by code_simp
  have h2: "create (Some ?B) ?wA = Some (Inr ?wAB)" by code_simp
  have h3: "create (Some ?B) initial = Some (Inr ?wB)" by code_simp
  have b1: "obj_get (tokenColors ?wB) ''--a'' = None" by code_simp
  have b2: "obj_get (tokenColors ?wB) ''--b'' = Some ''#222''" by code_simp
  have a1: "obj_get (tokenColors ?wA) ''--a'' = Some ''#111''" by code_simp
  from registry_accumulates [OF h1 h2 h3, of "''--a''"] b1 a1
  have r1: "obj_get [(''--a'', ''#111''), (''--b'', ''#222'')] ''--a'' = Some ''#111''" by simp
  from registry_accumulates [OF h1 h2 h3, of "''--b''"] b2
  have r2: "obj_get [(''--a'', ''#111''), (''--b'', ''#222'')] ''--b'' = Some ''#222''" by simp
  from h1 h2 h3 r1 r2 show ?thesis by blast
qed

text \<open>
  Isolation between two style sheets does not hold: after a build from a sheet defining
  \<open>--a\<close> and a build from a sheet defining only \<open>--b\<close>, the lookup still finds
  \<open>--a\<close>, which a build from the second sheet alone would not.
\<close>

theorem isolation_counterexample:
  "create (Some [\<lparr>decl_prop = ''--a'', decl_value = ''#111''\<rparr>]) initial
     = Some (Inr \<lparr>tokenColors = [(''--a'', ''#111'')], console = [(''#'', 0, ''#111'')], reports = []\<rparr>)
   \<and> create (Some [\<lparr>decl_prop = ''--b'', decl_value = ''#222''\<rparr>])
        \<lparr>tokenColors = [(''--a'', ''#111'')], console = [(''#'', 0, ''#111'')], reports = []\<rparr>
     = Some (Inr \<lparr>tokenColors = [(''--a'', ''#111''), (''--b'', ''#222'')],
            console = [(''#'', 0, ''#111''), (''#'', 0, ''#222'')], reports = []\<rparr>)
   \<and> getToken [(''--a'', ''#111''), (''--b'', ''#222'')] (JSString ''#111'') = Some ''--a''
   \<and> create (Some [\<lparr>decl_prop = ''--b'', decl_value = ''#222''\<rparr>]) initial
     = Some (Inr \<lparr>tokenColors = [(''--b'', ''#222'')], console = [(''#'', 0, ''#222'')], reports = []\<rparr>)
   \<and> getToken [(''--b'', ''#222'')] (JSString ''#111'') = None"
  by code_simp

subsection \<open>Extracting the colour span\<close>

text \<open>
  Claim C3 (anchor, end and span).  For a text containing a colour marker, the anchor is
  the first position of \<open>#\<close> if there is one, and otherwise the first position of the
  letters \<open>rgb\<close> (with or without a parenthesis after them).  If a closing parenthesis
  stands at or after the anchor, the end index is the position of the first such
  parenthesis plus one and the span runs from the anchor up to and including it; if none
  does, the end index is \<open>0\<close> and the span is empty.
\<close>

theorem extractColorSpan_spec:
  assumes "isColor v" and "extractColorSpan v = (node, context, end, hexOrRgba)"
  shows "\<exists>a. node = int a
           \<and> first_occurrence v (if CHR ''#'' \<in> set v then ''#'' else ''rgb'') a
           \<and> (if \<exists>j. a \<le> j \<and> j < length v \<and> v ! j = CHR '')''
              then \<exists>e. end = int e + 1 \<and> a \<le> e \<and> e < length v \<and> v ! e = CHR '')''
                     \<and> (\<forall>j. a \<le> j \<and> j < e \<longrightarrow> v ! j \<noteq> CHR '')'')
                     \<and> hexOrRgba = take (e + 1 - a) (drop a v)
              else end = 0 \<and> hexOrRgba = [])"
proof -
  from anchor_exists [OF assms] obtain a where a: "node = int a" "a \<le> length v"
    "first_occurrence v (if CHR ''#'' \<in> set v then ''#'' else ''rgb'') a" by blast
  from assms(2) a(1) have sp: "extractColorSpan v = (int a, context, end, hexOrRgba)" by simp
  show ?thesis
  proof (cases "\<exists>j. a \<le> j \<and> j < length v \<and> v ! j = CHR '')''")
    case True
    from span_closed [OF sp a(2) True] a True show ?thesis by auto
  next
    case False
    then have "\<forall>j. a \<le> j \<and> j < length v \<longrightarrow> v ! j \<noteq> CHR '')''" by blast
    from span_unclosed [OF sp a(2) this] a False show ?thesis by auto
  qed
qed

text \<open>
  The span of \<open>1px solid rgba(0,0,0,0.5)\<close> is \<open>rgba(0,0,0,0.5)\<close>, anchored at
  position 10.
\<close>

theorem extractColorSpan_spec_witness:
  "isColor ''1px solid rgba(0,0,0,0.5)''
   \<and> extractColorSpan ''1px solid rgba(0,0,0,0.5)'' = (10, ''rgb'', 25, ''rgba(0,0,0,0.5)'')
   \<and> occurs_at ''1px solid rgba(0,0,0,0.5)'' ''rgb'' 10"
proof -
  let ?v = "''1px solid rgba(0,0,0,0.5)''"
  have h1: "isColor ?v" by code_simp
  have h2: "extractColorSpan ?v = (10, ''rgb'', 25, ''rgba(0,0,0,0.5)'')"
    by code_simp
  from extractColorSpan_spec [OF h1 h2]
  have "occurs_at ?v ''rgb'' 10" by (auto simp: first_occurrence_def)
  with h1 h2 show ?thesis by blast
qed

text \<open>
  The anchor is not the position of \<open>rgb(\<close>: in \<open>var(--rgb-base) rgb(1,2,3)\<close> that
  position is 16 and the span from there would be \<open>rgb(1,2,3)\<close>, but the visitor anchors
  at the earlier \<open>rgb\<close> at position 6 and takes \<open>rgb-base)\<close>.
\<close>

theorem extractColorSpan_counterexample:
  "isColor ''var(--rgb-base) rgb(1,2,3)''
   \<and> \<not> str_includes ''var(--rgb-base) rgb(1,2,3)'' ''#''
   \<and> str_indexOf ''var(--rgb-base) rgb(1,2,3)'' ''rgb('' 0 = 16
   \<and> str_slice ''var(--rgb-base) rgb(1,2,3)'' 16 (str_indexOf ''var(--rgb-base) rgb(1,2,3)'' '')'' 16 + 1) = ''rgb(1,2,3)''
   \<and> extractColorSpan ''var(--rgb-base) rgb(1,2,3)'' = (6, ''rgb'', 15, ''rgb-base)'')"
  by code_simp

text \<open>
  Claim C5 (marker without closing parenthesis).  A declaration whose text contains a
  colour marker but no closing parenthesis at or after the anchor is not skipped.  If its
  name begins with \<open>--\<close>, the call of the visitor on it stores its text under its name,
  and when the build returns the registry has an entry under that name.  The build reports
  no diagnostic; the call writes one line to the console.
\<close>

theorem unclosed_marker:
  assumes "create (Some ds) w = Some (Inr w')" and "d \<in> set ds"
    and "isColor (decl_value d)"
    and "extractColorSpan (decl_value d) = (node, context, end, hexOrRgba)"
    and "\<forall>j. nat node \<le> j \<and> j < length (decl_value d) \<longrightarrow> decl_value d ! j \<noteq> CHR '')''"
    and "str_startsWith (decl_prop d) ''--''"
  shows "obj_get (tokenColors (snd (Declaration d u))) (decl_prop d) = Some (decl_value d)
     \<and> (\<exists>v. obj_get (tokenColors w') (decl_prop d) = Some v)
     \<and> reports w' = reports w
     \<and> length (console (snd (Declaration d u))) = Suc (length (console u))"
proof -
  from assms(3,6) have adm: "admitted d" by (simp add: admitted_def)
  then have one: "obj_get (tokenColors (snd (Declaration d u))) (decl_prop d) = Some (decl_value d)"
    by (simp add: Declaration_tokenColors obj_get_set)
  from create_calls [OF assms(1)] obtain rest where w': "w' = snd (process (ds @ rest) w)"
    by blast
  from assms(2) have "d \<in> set (ds @ rest)" by simp
  from admitted_in_keys [OF this adm] w'
  have "decl_prop d \<in> set (Object_keys (tokenColors w'))" by simp
  then have entry: "\<exists>v. obj_get (tokenColors w') (decl_prop d) = Some v"
    by (rule keys_have_entries)
  from w' have rep: "reports w' = reports w" by (simp add: process_reports)
  from assms(3) have "length (console (snd (Declaration d u))) = Suc (length (console u))"
    by (simp add: Declaration_def isColor_def Let_def split: prod.splits)
  with one entry rep show ?thesis by blast
qed

theorem unclosed_marker_witness:
  "create (Some [\<lparr>decl_prop = ''--brand'', decl_value = ''#112233''\<rparr>]) initial
     = Some (Inr \<lparr>tokenColors = [(''--brand'', ''#112233'')],
                  console = [(''#'', 0, ''#112233'')], reports = []\<rparr>)
   \<and> isColor ''#112233''
   \<and> extractColorSpan ''#112233'' = (0, ''#'', 0, [])
   \<and> str_startsWith ''--brand'' ''--''
   \<and> (\<exists>v. obj_get [(''--brand'', ''#112233'')] ''--brand'' = Some v)"
proof -
  let ?d = "\<lparr>decl_prop = ''--brand'', decl_value = ''#112233''\<rparr>"
  let ?w' = "\<lparr>tokenColors = [(''--brand'', ''#112233'')],
              console = [(''#'', 0, ''#112233'')], reports = []\<rparr>"
  have h0: "create (Some [?d]) initial = Some (Inr ?w')" by code_simp
  have h1: "isColor ''#112233''" by code_simp
  have h2: "extractColorSpan ''#112233'' = (0, ''#'', 0, [])" by code_simp
  have h3: "\<forall>j. nat 0 \<le> j \<and> j < length ''#112233'' \<longrightarrow> ''#112233'' ! j \<noteq> CHR '')''"
    by (simp add: nth_Cons' less_Suc_eq)
  have h4: "str_startsWith ''--brand'' ''--''" by code_simp
  have "\<exists>v. obj_get (tokenColors ?w') (decl_prop ?d) = Some v"
    using unclosed_marker [of "[?d]" initial ?w' ?d 0 "''#''" 0 "[]" initial] h0 h1 h2 h3 h4
    by simp
  then have "\<exists>v. obj_get [(''--brand'', ''#112233'')] ''--brand'' = Some v" by simp
  with h0 h1 h2 h4 show ?thesis by blast
qed

text \<open>
  A hexadecimal colour has no closing parenthesis, and \<open>--brand: #112233\<close> does enter
  the registry; the console holds the line written for it.
\<close>

theorem unclosed_counterexample:
  "isColor ''#112233''
   \<and> str_indexOf ''#112233'' '')'' 0 = - 1
   \<and> create (Some [\<lparr>decl_prop = ''--brand'', decl_value = ''#112233''\<rparr>]) initial
       = Some (Inr \<lparr>tokenColors = [(''--brand'', ''#112233'')],
                    console = [(''#'', 0, ''#112233'')], reports = []\<rparr>)
   \<and> obj_get [(''--brand'', ''#112233'')] ''--brand'' = Some ''#112233''"
  by code_simp

subsection \<open>Looking a literal up\<close>

text \<open>
  Claim C2 (exact lookup).  If some name of the registry is mapped to exactly the string
  \<open>v\<close>, then \<open>getToken\<close> returns a name that is mapped to \<open>v\<close>; if no name is, it
  returns nothing.  Strings are compared as they are.
\<close>

theorem getToken_exact:
  "((\<exists>k. obj_get r k = Some v) \<longrightarrow> (\<exists>n. getToken r (JSString v) = Some n \<and> obj_get r n = Some v))
   \<and> ((\<forall>k. obj_get r k \<noteq> Some v) \<longrightarrow> getToken r (JSString v) = None)"
  using getToken_found getToken_None by blast

theorem getToken_exact_witness:
  "obj_get [(''--a'', ''rgba(0,0,0,1)'')] ''--a'' = Some ''rgba(0,0,0,1)''
   \<and> getToken [(''--a'', ''rgba(0,0,0,1)'')] (JSString ''rgba(0,0,0,1)'') = Some ''--a''
   \<and> getToken [(''--a'', ''rgba(0,0,0,1)'')] (JSString ''rgba(0, 0, 0, 1)'') = None
   \<and> getToken [(''--a'', ''rgba(0,0,0,1)'')] (JSString ''RGBA(0,0,0,1)'') = None"
proof -
  let ?r = "[(''--a'', ''rgba(0,0,0,1)'')]"
  have present: "obj_get ?r ''--a'' = Some ''rgba(0,0,0,1)''" by code_simp
  have only: "obj_get ?r n = Some v \<Longrightarrow> n = ''--a'' \<and> v = ''rgba(0,0,0,1)''" for n v
    by (simp add: obj_get_def split: if_splits)
  from getToken_exact [of ?r "''rgba(0,0,0,1)''"] present only
  have found: "getToken ?r (JSString ''rgba(0,0,0,1)'') = Some ''--a''" by blast
  have "\<forall>k. obj_get ?r k \<noteq> Some ''rgba(0, 0, 0, 1)''" using only by fastforce
  with getToken_exact [of ?r "''rgba(0, 0, 0, 1)''"]
  have spaced: "getToken ?r (JSString ''rgba(0, 0, 0, 1)'') = None" by blast
  have "\<forall>k. obj_get ?r k \<noteq> Some ''RGBA(0,0,0,1)''" using only by fastforce
  with getToken_exact [of ?r "''RGBA(0,0,0,1)''"]
  have upper: "getToken ?r (JSString ''RGBA(0,0,0,1)'') = None" by blast
  from present found spaced upper show ?thesis by blast
qed

text \<open>
  Claim C7 (tie-break).  Let the registry be built from the empty one over the sheet
  \<open>ds\<close>.  The name \<open>getToken\<close> returns for \<open>v\<close> is mapped to \<open>v\<close>, and no name
  enumerated before it is mapped to \<open>v\<close>.  The enumeration is the order of insertion:
  the names enumerated before the returned name are exactly the names of the admitted
  declarations that precede the first admitted declaration of the returned name.
\<close>

theorem first_inserted_wins:
  assumes "create (Some ds) initial = Some (Inr w)" and "getToken (tokenColors w) (JSString v) = Some n"
  shows "obj_get (tokenColors w) n = Some v
    \<and> (\<exists>bef aft pre d post. Object_keys (tokenColors w) = bef @ n # aft
          \<and> (\<forall>k\<in>set bef. obj_get (tokenColors w) k \<noteq> Some v)
          \<and> ds = pre @ d # post \<and> admitted d \<and> decl_prop d = n
          \<and> n \<notin> set bef \<and> set bef = decl_prop ` {e \<in> set pre. admitted e})"
proof -
  from create_calls [OF assms(1)] obtain rest where
    w: "w = snd (process (ds @ rest) initial)"
    and origin: "\<forall>e\<in>set rest. \<exists>d\<in>set ds. decl_prop e = decl_prop d \<and> isColor (decl_value d)"
    by blast
  from revisits_add_no_keys [OF origin] w
  have keys: "Object_keys (tokenColors w) = Object_keys (tokenColors (snd (process ds initial)))"
    by simp
  from getToken_first [OF assms(2)] obtain bef aft where
    k: "Object_keys (tokenColors w) = bef @ n # aft" "\<forall>k\<in>set bef. obj_get (tokenColors w) k \<noteq> Some v"
    by blast
  from keys_distinct_initial [of ds] k(1) keys have fresh: "n \<notin> set bef" by auto
  from keys_insertion_order [of ds bef n aft] k(1) keys
  obtain pre d post where "ds = pre @ d # post" "admitted d" "decl_prop d = n"
     "set bef = decl_prop ` {e \<in> set pre. admitted e}" by auto
  with k fresh getToken_Some [OF assms(2)] show ?thesis by blast
qed

text \<open>
  \<open>--a\<close> is inserted first and receives the shared text only with its second
  declaration; it keeps its place and is the name returned.
\<close>

theorem first_inserted_wins_witness:
  "create (Some [\<lparr>decl_prop = ''--a'', decl_value = ''#000''\<rparr>,
                 \<lparr>decl_prop = ''--b'', decl_value = ''#111''\<rparr>,
                 \<lparr>decl_prop = ''--a'', decl_value = ''#111''\<rparr>]) initial
     = Some (Inr \<lparr>tokenColors = [(''--a'', ''#111''), (''--b'', ''#111'')],
            console = [(''#'', 0, ''#000''), (''#'', 0, ''#111''), (''#'', 0, ''#111'')],
            reports = []\<rparr>)
   \<and> getToken [(''--a'', ''#111''), (''--b'', ''#111'')] (JSString ''#111'') = Some ''--a''
   \<and> obj_get [(''--a'', ''#111''), (''--b'', ''#111'')] ''--a'' = Some ''#111''
   \<and> obj_get [(''--a'', ''#111''), (''--b'', ''#111'')] ''--b'' = Some ''#111''"
proof -
  let ?ds = "[\<lparr>decl_prop = ''--a'', decl_value = ''#000''\<rparr>,
              \<lparr>decl_prop = ''--b'', decl_value = ''#111''\<rparr>,
              \<lparr>decl_prop = ''--a'', decl_value = ''#111''\<rparr>]"
  let ?w = "\<lparr>tokenColors = [(''--a'', ''#111''), (''--b'', ''#111'')],
            console = [(''#'', 0, ''#000''), (''#'', 0, ''#111''), (''#'', 0, ''#111'')],
            reports = []\<rparr>"
  have h1: "create (Some ?ds) initial = Some (Inr ?w)" by code_simp
  have h2: "getToken (tokenColors ?w) (JSString ''#111'') = Some ''--a''" by code_simp
  have other: "obj_get [(''--a'', ''#111''), (''--b'', ''#111'')] ''--b'' = Some ''#111''"
    by code_simp
  from first_inserted_wins [OF h1 h2]
  have "obj_get [(''--a'', ''#111''), (''--b'', ''#111'')] ''--a'' = Some ''#111''" by simp
  with h1 h2 other show ?thesis by simp
qed

text \<open>
  Claim C9 (the lookup is pure).  Handling any number of nodes, in any order, changes
  neither the registry nor the console; \<open>getToken\<close> answers afterwards as it did before,
  and the diagnostics a node gives rise to are the same however many nodes were handled
  before it.
\<close>

theorem getToken_pure:
  "tokenColors (fold Property ns w) = tokenColors w
   \<and> console (fold Property ns w) = console w
   \<and> getToken (tokenColors (fold Property ns w)) val = getToken (tokenColors w) val
   \<and> (\<exists>rs. reports (Property n (fold Property ns w)) = reports (fold Property ns w) @ rs
          \<and> reports (Property n w) = reports w @ rs)"
  using Property_reports [of "fold Property ns w" w n]
  by (simp add: fold_Property_tokenColors fold_Property_console)

subsection \<open>Reporting\<close>

text \<open>
  Claim C8 (diagnostic).  In every state the module can reach, a node whose key is named
  \<open>color\<close> and whose literal is a string equal to some registry entry gets exactly one
  report, with the message built from a name mapped to that string and the string itself;
  a node with another key name, or whose literal equals no registry entry, changes nothing.
\<close>

theorem Property_diagnostic:
  assumes "reachable w"
  shows "(key_name n = Some ''color'' \<and> lit_value n = JSString v
            \<and> (\<exists>k. obj_get (tokenColors w) k = Some v) \<longrightarrow>
          (\<exists>tok. obj_get (tokenColors w) tok = Some v \<and>
             Property n w = w\<lparr>reports := reports w @
               [(n, ''Use token '' @ [CHR 0x27] @ tok @ [CHR 0x27]
                      @ '' instead of hard-coded color '' @ [CHR 0x27] @ v @ [CHR 0x27] @ ''.'')]\<rparr>))
       \<and> (key_name n \<noteq> Some ''color''
            \<or> (\<forall>k. map_option JSString (obj_get (tokenColors w) k) \<noteq> Some (lit_value n)) \<longrightarrow>
          Property n w = w)"
proof (intro conjI impI)
  assume a: "key_name n = Some ''color'' \<and> lit_value n = JSString v
            \<and> (\<exists>k. obj_get (tokenColors w) k = Some v)"
  then obtain tok where tok: "getToken (tokenColors w) (JSString v) = Some tok"
    "obj_get (tokenColors w) tok = Some v"
    using getToken_found by blast
  from reachable_token_nonempty [OF assms tok(1)] have "tok \<noteq> []" .
  with a tok show "\<exists>tok. obj_get (tokenColors w) tok = Some v \<and>
             Property n w = w\<lparr>reports := reports w @
               [(n, ''Use token '' @ [CHR 0x27] @ tok @ [CHR 0x27]
                      @ '' instead of hard-coded color '' @ [CHR 0x27] @ v @ [CHR 0x27] @ ''.'')]\<rparr>"
    by (intro exI [of _ tok]) (simp add: Property_def message_def)
next
  assume b: "key_name n \<noteq> Some ''color''
            \<or> (\<forall>k. map_option JSString (obj_get (tokenColors w) k) \<noteq> Some (lit_value n))"
  show "Property n w = w"
  proof (cases "key_name n = Some ''color''")
    case False
    then show ?thesis by (simp add: Property_def)
  next
    case True
    with b have none: "\<forall>k. map_option JSString (obj_get (tokenColors w) k) \<noteq> Some (lit_value n)" by blast
    have "getToken (tokenColors w) (lit_value n) = None"
    proof (cases "lit_value n")
      case (JSString s)
      with none show ?thesis by (auto simp: getToken_None)
    next
      case JSOther
      then show ?thesis by (simp add: getToken_other)
    qed
    then show ?thesis by (simp add: Property_def)
  qed
qed

theorem Property_diagnostic_witness:
  "reachable \<lparr>tokenColors = [(''--a'', ''#111'')], console = [(''#'', 0, ''#111'')], reports = []\<rparr>
   \<and> reports (Property \<lparr>key_name = Some ''color'', lit_value = JSString ''#111''\<rparr>
        \<lparr>tokenColors = [(''--a'', ''#111'')], console = [(''#'', 0, ''#111'')], reports = []\<rparr>)
       = [(\<lparr>key_name = Some ''color'', lit_value = JSString ''#111''\<rparr>,
           ''Use token '' @ [CHR 0x27] @ ''--a'' @ [CHR 0x27]
             @ '' instead of hard-coded color '' @ [CHR 0x27] @ ''#111'' @ [CHR 0x27] @ ''.'')]
   \<and> reports (Property \<lparr>key_name = Some ''background'', lit_value = JSString ''#111''\<rparr>
        \<lparr>tokenColors = [(''--a'', ''#111'')], console = [(''#'', 0, ''#111'')], reports = []\<rparr>) = []
   \<and> reports (Property \<lparr>key_name = Some ''color'', lit_value = JSString ''#222''\<rparr>
        \<lparr>tokenColors = [(''--a'', ''#111'')], console = [(''#'', 0, ''#111'')], reports = []\<rparr>) = []"
proof -
  let ?w = "\<lparr>tokenColors = [(''--a'', ''#111'')], console = [(''#'', 0, ''#111'')], reports = []\<rparr>"
  let ?n = "\<lparr>key_name = Some ''color'', lit_value = JSString ''#111''\<rparr>"
  let ?bg = "\<lparr>key_name = Some ''background'', lit_value = JSString ''#111''\<rparr>"
  let ?miss = "\<lparr>key_name = Some ''color'', lit_value = JSString ''#222''\<rparr>"
  have "create (Some [\<lparr>decl_prop = ''--a'', decl_value = ''#111''\<rparr>]) initial = Some (Inr ?w)"
    by code_simp
  with reachable.start have r: "reachable ?w" by (rule reachable.built)
  have only: "obj_get (tokenColors ?w) k = Some v \<Longrightarrow> k = ''--a'' \<and> v = ''#111''" for k v
    by (simp add: obj_get_def split: if_splits)
  have present: "obj_get (tokenColors ?w) ''--a'' = Some ''#111''" by code_simp
  from Property_diagnostic [OF r, of ?n "''#111''"] present only
  have hit: "Property ?n ?w = ?w\<lparr>reports := reports ?w @
               [(?n, ''Use token '' @ [CHR 0x27] @ ''--a'' @ [CHR 0x27]
                      @ '' instead of hard-coded color '' @ [CHR 0x27] @ ''#111'' @ [CHR 0x27] @ ''.'')]\<rparr>"
    by (metis node.select_convs(1,2))
  have "key_name ?bg \<noteq> Some ''color''" by simp
  with Property_diagnostic [OF r, of ?bg] have bg: "Property ?bg ?w = ?w" by blast
  have "\<forall>k. map_option JSString (obj_get (tokenColors ?w) k) \<noteq> Some (lit_value ?miss)"
    using only by (auto simp del: world.select_convs)
  with Property_diagnostic [OF r, of ?miss] have miss: "Property ?miss ?w = ?w" by blast
  from r hit bg miss show ?thesis by simp
qed

end
